theory Spec2Isabelle
  imports Main "HOL-Library.Word"
begin

section \<open>Go values used by package journalentry\<close>

text \<open>
  A Go \<open>string\<close> and a \<open>[]byte\<close> are sequences of bytes: both are modelled as
  \<open>string\<close> (a list of 8-bit \<open>char\<close>s). A \<open>rune\<close> is a Unicode code point.
  \<open>uint8\<close> and \<open>uint16\<close> are machine words. An \<open>error\<close> is a value; \<open>nil\<close> is
  \<open>None\<close> of \<open>error option\<close>.
\<close>

type_synonym uint8 = "8 word"
type_synonym uint16 = "16 word"
type_synonym rune = nat

datatype error =
    EOF                    \<comment> \<open>\<open>io.EOF\<close>\<close>
  | ErrNotExist            \<comment> \<open>the file does not exist (\<open>os.IsNotExist\<close> holds)\<close>
  | ErrPermission          \<comment> \<open>the operating system refused the operation\<close>
  | ErrSyntax              \<comment> \<open>\<open>strconv.ErrSyntax\<close>\<close>
  | ErrRange               \<comment> \<open>\<open>strconv.ErrRange\<close>\<close>
  | ParseError string      \<comment> \<open>\<open>*time.ParseError\<close>\<close>
  | ErrorString string     \<comment> \<open>\<open>errors.New\<close>, and every other error value\<close>

text \<open>\<open>time.Time\<close>: the civil date the instant falls on and the time of day.\<close>

record Time =
  Year :: int
  Month :: nat
  Day :: nat
  Nanos :: nat

text \<open>The zero \<open>time.Time{}\<close>: January 1, year 1, 00:00:00 UTC.\<close>

definition zeroTime :: Time where
  "zeroTime = \<lparr>Year = 1, Month = 1, Day = 1, Nanos = 0\<rparr>"

section \<open>The Entry\<close>

record Entry =
  Seconds :: uint16
  LowMood :: uint8
  HighMood :: uint8
  AverageMood :: uint8
  Body :: string
  Path :: string
  ModTime :: Time

section \<open>Package unicode/utf8: decoding runes\<close>

definition RuneError :: rune where
  "RuneError = 65533"

definition RuneSelf :: nat where
  "RuneSelf = 128"

text \<open>
  \<open>utf8.DecodeRuneInString\<close>: the first rune of \<open>s\<close> and its width in bytes. The table
  \<open>first\<close> gives the size and the accepted range of the second byte from the first
  byte; an invalid or short encoding is \<open>(RuneError, 1)\<close>, the empty string
  \<open>(RuneError, 0)\<close>. Masks and shifts are written as \<open>mod\<close> and multiplication.
\<close>

definition DecodeRuneInString :: "string \<Rightarrow> rune \<times> nat" where
  "DecodeRuneInString s =
    (case s of
       [] \<Rightarrow> (RuneError, 0)
     | c0 # _ \<Rightarrow>
        let s0 = (of_char c0 :: nat) in
        if s0 < RuneSelf then (s0, 1)
        else if s0 < 194 \<or> 244 < s0 then (RuneError, 1)
        else
          let sz = (if s0 < 224 then 2 else if s0 < 240 then 3 else 4 :: nat);
              lo = (if s0 = 224 then 160 else if s0 = 240 then 144 else 128 :: nat);
              hi = (if s0 = 237 then 159 else if s0 = 244 then 143 else 191 :: nat)
          in
          if length s < sz then (RuneError, 1)
          else
            let s1 = (of_char (s ! 1) :: nat) in
            if s1 < lo \<or> hi < s1 then (RuneError, 1)
            else if sz \<le> 2 then ((s0 mod 32) * 64 + s1 mod 64, 2)
            else
              let s2 = (of_char (s ! 2) :: nat) in
              if s2 < 128 \<or> 191 < s2 then (RuneError, 1)
              else if sz \<le> 3 then ((s0 mod 16) * 4096 + (s1 mod 64) * 64 + s2 mod 64, 3)
              else
                let s3 = (of_char (s ! 3) :: nat) in
                if s3 < 128 \<or> 191 < s3 then (RuneError, 1)
                else ((s0 mod 8) * 262144 + (s1 mod 64) * 4096 + (s2 mod 64) * 64
                        + s3 mod 64, 4))"

text \<open>
  The runes of a string, as a \<open>range\<close> over it or the regexp engine's \<open>step\<close> reads
  them: decode, advance by the width. The width of a rune of a non-empty string is at
  least 1, so the rest is \<open>drop (n - 1)\<close> of the tail.
\<close>

fun runes :: "string \<Rightarrow> rune list" where
  "runes [] = []"
| "runes (c # t) = (case DecodeRuneInString (c # t) of (r, n) \<Rightarrow> r # runes (drop (n - 1) t))"

text \<open>
  \<open>utf8.DecodeLastRuneInString\<close>: the last rune of \<open>s\<close> and its width. It walks back
  from the last byte over at most \<open>UTFMax = 4\<close> bytes to a byte that starts a rune
  (\<open>utf8.RuneStart\<close>: not a continuation byte \<open>10xxxxxx\<close>), decodes forward from there,
  and answers \<open>(RuneError, 1)\<close> unless that rune ends where \<open>s\<close> ends.
\<close>

definition RuneStart :: "char \<Rightarrow> bool" where
  "RuneStart b = ((of_char b :: nat) div 64 \<noteq> 2)"

function back_to_start :: "string \<Rightarrow> int \<Rightarrow> int \<Rightarrow> int" where
  "back_to_start s lim start =
     (if start \<ge> lim \<and> \<not> RuneStart (s ! nat start) then back_to_start s lim (start - 1)
      else start)"
  by pat_completeness auto
termination
  by (relation "measure (\<lambda>(s, lim, start). nat (start - lim + 1))") auto

definition DecodeLastRuneInString :: "string \<Rightarrow> rune \<times> nat" where
  "DecodeLastRuneInString s =
    (let end = int (length s) in
     if end = 0 then (RuneError, 0)
     else
       let start = end - 1;
           r = (of_char (s ! nat start) :: nat)
       in
       if r < RuneSelf then (r, 1)
       else
         let lim = (if end - 4 < 0 then 0 else end - 4);
             start = back_to_start s lim (start - 1);
             start = (if start < 0 then 0 else start);
             (r, size) = DecodeRuneInString (drop (nat start) s)
         in if start + int size \<noteq> end then (RuneError, 1) else (r, size))"

section \<open>Package unicode and strings: TrimSpace\<close>

text \<open>
  \<open>unicode.IsSpace\<close>: the code points with the Unicode property White\_Space.
\<close>

definition IsSpace :: "rune \<Rightarrow> bool" where
  "IsSpace r =
    ((9 \<le> r \<and> r \<le> 13) \<or> r = 32 \<or> r = 133 \<or> r = 160 \<or> r = 5760
     \<or> (8192 \<le> r \<and> r \<le> 8202) \<or> r = 8232 \<or> r = 8233 \<or> r = 8239 \<or> r = 8287
     \<or> r = 12288)"

text \<open>
  \<open>strings.TrimLeftFunc\<close> and \<open>strings.TrimRightFunc\<close> drop the leading and the
  trailing runes that satisfy \<open>f\<close>, decoding forward and backward; \<open>strings.TrimSpace\<close>
  is \<open>TrimFunc\<close> with \<open>unicode.IsSpace\<close> (its ASCII fast path computes the same
  slice). The last rune of a non-empty string has a width of at least 1.
\<close>

fun TrimLeftFunc :: "(rune \<Rightarrow> bool) \<Rightarrow> string \<Rightarrow> string" where
  "TrimLeftFunc f [] = []"
| "TrimLeftFunc f (c # t) =
     (case DecodeRuneInString (c # t) of
        (r, n) \<Rightarrow> if f r then TrimLeftFunc f (drop (n - 1) t) else c # t)"

function TrimRightFunc :: "(rune \<Rightarrow> bool) \<Rightarrow> string \<Rightarrow> string" where
  "TrimRightFunc f s =
     (if s = [] then []
      else case DecodeLastRuneInString s of
        (r, n) \<Rightarrow> if f r then TrimRightFunc f (take (length s - max 1 n) s) else s)"
  by pat_completeness auto
termination
  by (relation "measure (\<lambda>(f, s). length s)") auto

definition TrimSpace :: "string \<Rightarrow> string" where
  "TrimSpace s = TrimRightFunc IsSpace (TrimLeftFunc IsSpace s)"

section \<open>Package regexp: the patterns of this package\<close>

text \<open>
  The regular expressions of the source are concatenations of literals, character
  classes, counted repetitions of a class, and the anchors \<open>^\<close> and \<open>$\<close>. A pattern is
  the list of these nodes, as \<open>regexp/syntax\<close> parses the pattern string. Without
  flags \<open>.\<close> is any character but a newline, \<open>^\<close> matches at the beginning of the text
  and \<open>$\<close> at its end; \<open>\d\<close> is \<open>[0-9]\<close> and \<open>\D\<close> is its complement.
\<close>

datatype cls =
    Digit                \<comment> \<open>\<open>\d\<close>\<close>
  | NonDigit             \<comment> \<open>\<open>\D\<close>\<close>
  | NonSpace             \<comment> \<open>\<open>\S\<close>\<close>
  | AnyCharNotNL         \<comment> \<open>\<open>.\<close>\<close>
  | CharRange char char  \<comment> \<open>\<open>[a-b]\<close>\<close>

datatype node =
    Literal string       \<comment> \<open>the characters themselves\<close>
  | Class cls            \<comment> \<open>one character of the class\<close>
  | Repeat cls nat nat   \<comment> \<open>\<open>x{min,max}\<close>\<close>
  | BeginText            \<comment> \<open>\<open>^\<close>\<close>
  | EndText              \<comment> \<open>\<open>$\<close>\<close>

type_synonym regexp = "node list"

fun in_class :: "cls \<Rightarrow> rune \<Rightarrow> bool" where
  "in_class Digit r = (48 \<le> r \<and> r \<le> 57)"
| "in_class NonDigit r = (\<not> (48 \<le> r \<and> r \<le> 57))"
| "in_class NonSpace r = (\<not> (r = 9 \<or> r = 10 \<or> r = 12 \<or> r = 13 \<or> r = 32))"
| "in_class AnyCharNotNL r = (r \<noteq> 10)"
| "in_class (CharRange a b) r = (of_char a \<le> r \<and> r \<le> of_char b)"

text \<open>
  \<open>matches_at re bof t\<close>: some match of \<open>re\<close> starts at the beginning of the runes \<open>t\<close>;
  \<open>bof\<close> says that \<open>t\<close> is the whole text (nothing was consumed before it). Only
  whether a match exists is computed, so the order in which the alternatives of a
  repetition are tried does not matter. A repetition \<open>x{min,max}\<close> has
  \<open>min \<le> max\<close>.
\<close>

fun matches_at :: "regexp \<Rightarrow> bool \<Rightarrow> rune list \<Rightarrow> bool" where
  "matches_at [] bof t = True"
| "matches_at (BeginText # re) bof t = (if bof then matches_at re bof t else False)"
| "matches_at (EndText # re) bof t = (if t = [] then matches_at re bof t else False)"
| "matches_at (Literal [] # re) bof t = matches_at re bof t"
| "matches_at (Literal (c # cs) # re) bof [] = False"
| "matches_at (Literal (c # cs) # re) bof (r # t) =
     (if r = of_char c then matches_at (Literal cs # re) False t else False)"
| "matches_at (Class k # re) bof [] = False"
| "matches_at (Class k # re) bof (r # t) =
     (if in_class k r then matches_at re False t else False)"
| "matches_at (Repeat k lo hi # re) bof [] =
     (if lo = 0 then matches_at re bof [] else False)"
| "matches_at (Repeat k lo hi # re) bof (r # t) =
     (if 0 < lo then
        (if in_class k r then matches_at (Repeat k (lo - 1) (hi - 1) # re) False t else False)
      else if matches_at re bof (r # t) then True
      else if 0 < hi then
        (if in_class k r then matches_at (Repeat k 0 (hi - 1) # re) False t else False)
      else False)"

text \<open>An unanchored search: a match may start at any position of the text.\<close>

fun search :: "regexp \<Rightarrow> bool \<Rightarrow> rune list \<Rightarrow> bool" where
  "search re bof [] = matches_at re bof []"
| "search re bof (r # t) = (if matches_at re bof (r # t) then True else search re False t)"

text \<open>\<open>regexp.MustCompile(re).MatchString(s)\<close>: \<open>s\<close> contains a match of \<open>re\<close>.\<close>

definition MatchString :: "regexp \<Rightarrow> string \<Rightarrow> bool" where
  "MatchString re s = search re True (runes s)"

text \<open>
  The constants of the source:
  \<^verbatim>\<open>entryRegex  = `\d{4}-\d{2}-\d{2}-Journal-Entry-for-\D{3}-\d{1,2}` + ".md"\<close>,
  \<^verbatim>\<open>wordRegex   = `\S+`\<close> (used by \<open>Words\<close> only) and
  \<^verbatim>\<open>ratingRegex = `^[1-5]$`\<close>.
\<close>

definition entryRegex :: regexp where
  "entryRegex =
    [Repeat Digit 4 4, Literal ''-'', Repeat Digit 2 2, Literal ''-'', Repeat Digit 2 2,
     Literal ''-Journal-Entry-for-'', Repeat NonDigit 3 3, Literal ''-'', Repeat Digit 1 2,
     Class AnyCharNotNL, Literal ''md'']"

definition ratingRegex :: regexp where
  "ratingRegex = [BeginText, Class (CharRange CHR ''1'' CHR ''5''), EndText]"

section \<open>Package strconv: ParseUint\<close>

text \<open>
  \<open>strconv.ParseUint(s, base, bitSize)\<close> for \<open>2 \<le> base \<le> 36\<close> and
  \<open>1 \<le> bitSize \<le> 64\<close>: the digits of \<open>s\<close> are accumulated; an empty string, a
  character that is no digit of the base is \<open>ErrSyntax\<close>, a value above
  \<open>2 ^ bitSize - 1\<close> is \<open>ErrRange\<close>.
\<close>

definition digit_val :: "char \<Rightarrow> nat option" where
  "digit_val c =
    (let b = (of_char c :: nat);
         l = (if (b div 32) mod 2 = 0 then b + 32 else b)
     in if 48 \<le> b \<and> b \<le> 57 then Some (b - 48)
        else if 97 \<le> l \<and> l \<le> 122 then Some (l - 97 + 10)
        else None)"

fun parse_digits :: "nat \<Rightarrow> nat \<Rightarrow> nat \<Rightarrow> string \<Rightarrow> error + nat" where
  "parse_digits base maxVal n [] = Inr n"
| "parse_digits base maxVal n (c # cs) =
     (case digit_val c of
        None \<Rightarrow> Inl ErrSyntax
      | Some d \<Rightarrow>
          if d \<ge> base then Inl ErrSyntax
          else if n * base + d > maxVal then Inl ErrRange
          else parse_digits base maxVal (n * base + d) cs)"

definition ParseUint :: "string \<Rightarrow> nat \<Rightarrow> nat \<Rightarrow> error + nat" where
  "ParseUint s base bitSize =
    (if s = [] then Inl ErrSyntax else parse_digits base (2 ^ bitSize - 1) 0 s)"

section \<open>The streams of the Prompter\<close>

text \<open>
  An \<open>io.Reader\<close> yields a finite sequence of bytes and then reports an error for
  ever: \<open>io.EOF\<close> at the end of the stream, or an I/O error. \<open>history\<close> records what
  each read so far has returned, the latest last (it is not part of the Go value: it
  lets a property speak about the reads that took place). \<open>bufio.NewReader\<close> wraps
  the reader and reads nothing.
\<close>

record Reader =
  pending :: string
  ends :: error
  history :: "(string \<times> error option) list"

text \<open>
  \<open>(*bufio.Reader).ReadString(delim)\<close>: the bytes up to and including the first
  \<open>delim\<close>; when the stream fails before a \<open>delim\<close> is found, the bytes read so far
  together with that error.
\<close>

definition ReadString :: "Reader \<Rightarrow> char \<Rightarrow> (string \<times> error option) \<times> Reader" where
  "ReadString r delim =
    (let line = takeWhile (\<lambda>c. c \<noteq> delim) (pending r);
         rest = dropWhile (\<lambda>c. c \<noteq> delim) (pending r)
     in case rest of
          [] \<Rightarrow>
            ((line, Some (ends r)),
             r\<lparr>pending := [], history := history r @ [(line, Some (ends r))]\<rparr>)
        | d # rest' \<Rightarrow>
            ((line @ [d], None),
             r\<lparr>pending := rest', history := history r @ [(line @ [d], None)]\<rparr>))"

text \<open>
  An \<open>io.Writer\<close> is the sequence of byte strings written to it, one element for each
  call of \<open>fmt.Fprint\<close> or \<open>fmt.Fprintln\<close>. The source drops what these calls return.
\<close>

type_synonym Writer = "string list"

section \<open>The Metadata Prompter\<close>

type_synonym setter = "uint8 \<Rightarrow> Entry \<Rightarrow> Entry"

definition setLowMood :: setter where
  "setLowMood rating p = p\<lparr>LowMood := rating\<rparr>"

definition setHighMood :: setter where
  "setHighMood rating p = p\<lparr>HighMood := rating\<rparr>"

definition setAvgMood :: setter where
  "setAvgMood rating p = p\<lparr>AverageMood := rating\<rparr>"

definition highPrompt :: string where
  "highPrompt = ''High mood for the day? (1-5) ''"

definition lowPrompt :: string where
  "lowPrompt = ''Low mood for the day? (1-5) ''"

definition avgPrompt :: string where
  "avgPrompt = ''Average mood for the day? (1-5) ''"

text \<open>What \<open>fmt.Fprintln(w, "Unrecognized input")\<close> writes.\<close>

definition unrecognized :: string where
  "unrecognized = ''Unrecognized input'' @ [CHR 0x0A]"

text \<open>\<open>prompts\<close> builds a Go map from the prompt text to the setter of the field.\<close>

definition prompts :: "Entry \<Rightarrow> (string \<rightharpoonup> setter)" where
  "prompts p =
    (let pr = Map.empty;
         pr = (if HighMood p = 0 then pr(highPrompt \<mapsto> setHighMood) else pr);
         pr = (if LowMood p = 0 then pr(lowPrompt \<mapsto> setLowMood) else pr);
         pr = (if AverageMood p = 0 then pr(avgPrompt \<mapsto> setAvgMood) else pr)
     in pr)"

text \<open>
  A \<open>range\<close> over a Go map visits every key once, in an order the language leaves
  unspecified (the runtime randomises it). \<open>range_order m ks\<close>: \<open>ks\<close> is one of the
  orders in which a \<open>range\<close> over \<open>m\<close> may visit its keys.
\<close>

definition range_order :: "('k \<rightharpoonup> 'v) \<Rightarrow> 'k list \<Rightarrow> bool" where
  "range_order m ks = (distinct ks \<and> set ks = dom m)"

lemma ReadString_shorter:
  "ReadString r delim = ((line, None), r') \<Longrightarrow> length (pending r') < length (pending r)"
proof -
  assume h: "ReadString r delim = ((line, None), r')"
  have le: "length (dropWhile (\<lambda>c. c \<noteq> delim) (pending r)) \<le> length (pending r)"
    by (rule length_dropWhile_le)
  from h obtain d where "dropWhile (\<lambda>c. c \<noteq> delim) (pending r) = d # pending r'"
    by (auto simp: ReadString_def Let_def split: list.splits)
  with le show ?thesis by simp
qed

text \<open>
  The inner \<open>for\<close> loop of \<open>PromptForMetadata\<close> for one prompt and its setter: the
  result is the Entry, the reader, the writer and the error the function returns
  from inside the loop (\<open>None\<close> when the loop ends with \<open>break\<close>).
\<close>

function ask :: "string \<Rightarrow> setter \<Rightarrow> Entry \<Rightarrow> Reader \<Rightarrow> Writer
    \<Rightarrow> Entry \<times> Reader \<times> Writer \<times> error option" where
  "ask prompt setter p r w =
    (let w = w @ [prompt] in
     case ReadString r (CHR 0x0A) of
       ((input, err), r) \<Rightarrow>
         (case err of
            Some e \<Rightarrow> (p, r, w, Some e)
          | None \<Rightarrow>
              let input = TrimSpace input in
              if MatchString ratingRegex input then
                (case ParseUint input 10 8 of
                   Inl e \<Rightarrow> (p, r, w, Some e)
                 | Inr rating \<Rightarrow> (setter (of_nat rating) p, r, w, None))
              else ask prompt setter p r (w @ [unrecognized])))"
  by pat_completeness auto
termination
  by (relation "measure (\<lambda>(prompt, setter, p, r, w). length (pending r))")
     (auto dest: ReadString_shorter [OF sym])

declare ask.simps [simp del]

text \<open>
  The outer loop, over the keys of the map in the order \<open>order\<close> of this execution.
  A read error returns at once; after the last key the function returns its named
  result \<open>err\<close>, which nothing assigns (the \<open>err\<close> of the loop body is a new
  variable), so \<open>nil\<close>.
\<close>

fun range_prompts :: "(string \<rightharpoonup> setter) \<Rightarrow> string list \<Rightarrow> Entry \<Rightarrow> Reader \<Rightarrow> Writer
    \<Rightarrow> Entry \<times> Reader \<times> Writer \<times> error option" where
  "range_prompts pr [] p r w = (p, r, w, None)"
| "range_prompts pr (prompt # order) p r w =
    (case pr prompt of
       None \<Rightarrow> range_prompts pr order p r w
     | Some setter \<Rightarrow>
        (case ask prompt setter p r w of
           (p, r, w, Some e) \<Rightarrow> (p, r, w, Some e)
         | (p, r, w, None) \<Rightarrow> range_prompts pr order p r w))"

definition PromptForMetadata :: "string list \<Rightarrow> Entry \<Rightarrow> Reader \<Rightarrow> Writer
    \<Rightarrow> Entry \<times> Reader \<times> Writer \<times> error option" where
  "PromptForMetadata order p reader w = range_prompts (prompts p) order p reader w"

text \<open>The mood field a prompt asks for, read from an Entry.\<close>

definition prompted_field :: "string \<Rightarrow> Entry \<Rightarrow> uint8" where
  "prompted_field prompt p =
    (if prompt = highPrompt then HighMood p
     else if prompt = lowPrompt then LowMood p
     else AverageMood p)"

section \<open>Recognising entry files\<close>

definition IsEntry :: "string \<Rightarrow> bool" where
  "IsEntry path = MatchString entryRegex path"

text \<open>
  The naming pattern as the specification words it, for comparison with
  \<open>entryRegex\<close>: four digits, dash, two digits, dash, two digits, the literal
  \<open>-Journal-Entry-for-\<close>, exactly three non-whitespace characters, dash, one or two
  digits, the extension \<open>.md\<close>.
\<close>

definition specEntryPattern :: regexp where
  "specEntryPattern =
    [Repeat Digit 4 4, Literal ''-'', Repeat Digit 2 2, Literal ''-'', Repeat Digit 2 2,
     Literal ''-Journal-Entry-for-'', Repeat NonSpace 3 3, Literal ''-'', Repeat Digit 1 2,
     Literal ''.md'']"

section \<open>Properties of the library functions\<close>

lemma mod_window:
  fixes a :: nat
  assumes "lo \<le> a" and "a < lo + m" and "m dvd lo"
  shows "a mod m = a - lo"
proof -
  from assms(3) obtain q where q: "lo = m * q" by (auto elim: dvdE)
  have "a = m * q + (a - lo)" using assms(1) q by simp
  then have "a mod m = (a - lo) mod m" by (metis mod_mult_self4)
  also have "\<dots> = a - lo" using assms(1,2) by simp
  finally show ?thesis .
qed

lemma DecodeRune_ascii:
  assumes d: "DecodeRuneInString (c # t) = (r, n)" and r: "r < 128"
  shows "of_char c = r \<and> n = 1"
proof (cases "(of_char c :: nat) < 128")
  case True
  with d show ?thesis by (simp add: DecodeRuneInString_def Let_def RuneSelf_def)
next
  case False
  define s0 where "s0 = (of_char c :: nat)"
  define s1 where "s1 = (of_char (t ! 0) :: nat)"
  have m32: "194 \<le> s0 \<Longrightarrow> s0 < 224 \<Longrightarrow> s0 mod 32 = s0 - 192"
    by (rule mod_window) simp_all
  have m16: "224 \<le> s0 \<Longrightarrow> s0 < 240 \<Longrightarrow> s0 mod 16 = s0 - 224"
    by (rule mod_window) simp_all
  have m8: "240 \<le> s0 \<Longrightarrow> s0 \<le> 244 \<Longrightarrow> s0 mod 8 = s0 - 240"
    by (rule mod_window) simp_all
  have m64: "128 \<le> s1 \<Longrightarrow> s1 \<le> 191 \<Longrightarrow> s1 mod 64 = s1 - 128"
    by (rule mod_window) simp_all
  have big: "128 \<le> (s0 - 240) * 262144 + x + y + z" if "240 \<le> s0" and "s0 \<noteq> 240" for x y z
  proof -
    from that have "1 \<le> s0 - 240" by simp
    then have "1 * 262144 \<le> (s0 - 240) * 262144" by (rule mult_le_mono1)
    then show ?thesis by simp
  qed
  have "128 \<le> r"
    using d False m32 m16 m8 m64 big
    unfolding s0_def s1_def
    by (auto simp: DecodeRuneInString_def Let_def RuneError_def RuneSelf_def not_less
          split: if_splits)
  with r show ?thesis by simp
qed

lemma runes_eq_Nil: "runes s = [] \<longleftrightarrow> s = []"
  by (cases s) (auto split: prod.splits)

lemma runes_single_ascii:
  assumes "runes s = [r]" and "r < 128"
  shows "\<exists>c. s = [c] \<and> of_char c = r"
proof (cases s)
  case Nil
  with assms show ?thesis by simp
next
  case (Cons c t)
  obtain r' n where d: "DecodeRuneInString (c # t) = (r', n)" by (cases "DecodeRuneInString (c # t)")
  with assms Cons have "r' = r" and e: "runes (drop (n - 1) t) = []" by simp_all
  with d assms(2) have "of_char c = r" and "n = 1" using DecodeRune_ascii by blast+
  with e have "t = []" by (simp add: runes_eq_Nil)
  with Cons \<open>of_char c = r\<close> show ?thesis by simp
qed

lemma search_BeginText_mid: "\<not> search (BeginText # re) False t"
  by (induction t) auto

lemma search_ratingRegex:
  "search ratingRegex True t \<longleftrightarrow> (\<exists>r. t = [r] \<and> 49 \<le> r \<and> r \<le> 53)"
  by (cases t) (auto simp: ratingRegex_def search_BeginText_mid)

lemma rating_match:
  assumes "MatchString ratingRegex s"
  shows "\<exists>c. s = [c] \<and> 49 \<le> (of_char c :: nat) \<and> (of_char c :: nat) \<le> 53"
proof -
  from assms obtain r where r: "runes s = [r]" "49 \<le> r" "r \<le> 53"
    by (auto simp: MatchString_def search_ratingRegex)
  then have "r < 128" by simp
  with r(1) obtain c where "s = [c]" "of_char c = r" using runes_single_ascii by blast
  with r show ?thesis by auto
qed

lemma rating_parse:
  assumes "49 \<le> (of_char c :: nat)" and "(of_char c :: nat) \<le> 53"
  shows "ParseUint [c] 10 8 = Inr (of_char c - 48)"
  using assms by (simp add: ParseUint_def digit_val_def Let_def)

lemma rating_value:
  assumes "MatchString ratingRegex s"
  shows "\<exists>n. ParseUint s 10 8 = Inr n \<and> 1 \<le> n \<and> n \<le> 5"
proof -
  from rating_match [OF assms] obtain c where
    c: "s = [c]" "49 \<le> (of_char c :: nat)" "(of_char c :: nat) \<le> 53" by blast
  then have "ParseUint s 10 8 = Inr (of_char c - 48)" by (simp add: rating_parse)
  with c show ?thesis by auto
qed

lemma ReadString_None:
  assumes "ReadString r d = ((line, None), r1)"
  shows "history r1 = history r @ [(line, None)]" and "ends r1 = ends r"
    and "length (pending r1) < length (pending r)"
  using assms ReadString_shorter [OF assms]
  by (auto simp: ReadString_def Let_def split: list.splits)

lemma ReadString_Some:
  assumes "ReadString r d = ((line, Some e), r1)"
  shows "history r1 = history r @ [(line, Some e)]" and "ends r1 = ends r"
    and "pending r1 = []" and "e = ends r"
  using assms by (auto simp: ReadString_def Let_def split: list.splits)

lemma ask_fail:
  "ReadString r (CHR 0x0A) = ((input, Some e), r1) \<Longrightarrow>
   ask prompt setter p r w = (p, r1, w @ [prompt], Some e)"
  by (subst ask.simps) (simp add: Let_def)

lemma ask_valid:
  assumes "ReadString r (CHR 0x0A) = ((input, None), r1)"
    and "MatchString ratingRegex (TrimSpace input)"
  shows "\<exists>v. 1 \<le> v \<and> v \<le> 5 \<and> ParseUint (TrimSpace input) 10 8 = Inr v \<and>
    ask prompt setter p r w = (setter (of_nat v) p, r1, w @ [prompt], None)"
proof -
  from rating_value [OF assms(2)] obtain v where
    v: "ParseUint (TrimSpace input) 10 8 = Inr v" "1 \<le> v" "v \<le> 5" by blast
  have "ask prompt setter p r w = (setter (of_nat v) p, r1, w @ [prompt], None)"
    using assms v(1) by (subst ask.simps) (simp add: Let_def)
  with v show ?thesis by blast
qed

lemma ask_retry:
  assumes "ReadString r (CHR 0x0A) = ((input, None), r1)"
    and "\<not> MatchString ratingRegex (TrimSpace input)"
  shows "ask prompt setter p r w = ask prompt setter p r1 (w @ [prompt, unrecognized])"
  using assms by (subst ask.simps) (simp add: Let_def)

text \<open>What one question does, whatever the stream holds.\<close>

lemma ask_cases:
  assumes "ask prompt setter p r w = (p', r', w', err)"
  shows "\<exists>k hs. w' = w @ concat (replicate k [prompt, unrecognized]) @ [prompt]
      \<and> history r' = history r @ hs \<and> map snd hs = replicate k None @ [err]
      \<and> ends r' = ends r
      \<and> (case err of
            Some e \<Rightarrow> p' = p \<and> e = ends r \<and> pending r' = []
          | None \<Rightarrow> (\<exists>v. 1 \<le> v \<and> v \<le> 5 \<and> p' = setter (of_nat v) p))"
  using assms
proof (induction "length (pending r)" arbitrary: r w rule: less_induct)
  case less
  obtain input e1 r1 where rs: "ReadString r (CHR 0x0A) = ((input, e1), r1)"
    by (metis prod.exhaust)
  show ?case
  proof (cases e1)
    case (Some e)
    with rs less.prems have "(p', r', w', err) = (p, r1, w @ [prompt], Some e)"
      by (simp add: ask_fail)
    with ReadString_Some [of r _ input e r1] rs Some show ?thesis
      by (intro exI [of _ 0] exI [of _ "[(input, Some e)]"]) simp
  next
    case None
    note rn = ReadString_None [of r _ input r1, OF rs [unfolded None]]
    show ?thesis
    proof (cases "MatchString ratingRegex (TrimSpace input)")
      case True
      from ask_valid [OF rs [unfolded None] True, of prompt setter p w] less.prems
      obtain v where "1 \<le> v" "v \<le> 5" "(p', r', w', err) = (setter (of_nat v) p, r1, w @ [prompt], None)"
        by auto
      with rn show ?thesis
        by (intro exI [of _ 0] exI [of _ "[(input, None)]"]) auto
    next
      case False
      from ask_retry [OF rs [unfolded None] False, of prompt setter p w] less.prems
      have "ask prompt setter p r1 (w @ [prompt, unrecognized]) = (p', r', w', err)" by simp
      from less.hyps [OF rn(3) this] obtain k hs where
        kh: "w' = (w @ [prompt, unrecognized]) @ concat (replicate k [prompt, unrecognized]) @ [prompt]"
          "history r' = history r1 @ hs" "map snd hs = replicate k None @ [err]"
          "ends r' = ends r1"
          "(case err of
            Some e \<Rightarrow> p' = p \<and> e = ends r1 \<and> pending r' = []
          | None \<Rightarrow> (\<exists>v. 1 \<le> v \<and> v \<le> 5 \<and> p' = setter (of_nat v) p))"
        by blast
      with rn show ?thesis
        by (intro exI [of _ "Suc k"] exI [of _ "(input, None) # hs"])
           (auto split: option.splits)
    qed
  qed
qed

section \<open>Properties of the Prompter\<close>

lemma range_prompts_invariant:
  assumes "range_prompts pr order p r w = (p', r', w', err)"
    and "I p"
    and step: "\<And>k s v q. pr k = Some s \<Longrightarrow> 1 \<le> v \<Longrightarrow> v \<le> 5 \<Longrightarrow> I q \<Longrightarrow> I (s (of_nat v) q)"
  shows "I p'"
  using assms(1,2)
proof (induction order arbitrary: p r w)
  case Nil
  then show ?case by simp
next
  case (Cons k ks)
  show ?case
  proof (cases "pr k")
    case None
    with Cons show ?thesis by simp
  next
    case (Some s)
    obtain p1 r1 w1 e1 where a: "ask k s p r w = (p1, r1, w1, e1)"
      by (metis prod.exhaust)
    from ask_cases [OF a] Cons.prems(2) step [OF Some] have i1: "I p1"
      by (auto split: option.splits)
    show ?thesis
    proof (cases e1)
      case None
      with Cons.prems(1) Some a have "range_prompts pr ks p1 r1 w1 = (p', r', w', err)" by simp
      from Cons.IH [OF this i1] show ?thesis .
    next
      case (Some e)
      with Cons.prems(1) \<open>pr k = Some s\<close> a have "p' = p1" by simp
      with i1 show ?thesis by simp
    qed
  qed
qed

lemma range_prompts_io:
  assumes "range_prompts pr order p r w = (p', r', w', err)"
  shows "\<exists>ws hs n. w' = w @ ws \<and> set ws \<subseteq> (set order \<inter> dom pr) \<union> {unrecognized}
     \<and> history r' = history r @ hs
     \<and> map snd hs = replicate n None @ (case err of None \<Rightarrow> [] | Some e \<Rightarrow> [Some e])
     \<and> ends r' = ends r \<and> (\<forall>e. err = Some e \<longrightarrow> e = ends r \<and> pending r' = [])"
  using assms
proof (induction order arbitrary: p r w)
  case Nil
  then show ?case by (intro exI [of _ "[]"] exI [of _ 0]) simp
next
  case (Cons k ks)
  show ?case
  proof (cases "pr k")
    case None
    with Cons.prems have "range_prompts pr ks p r w = (p', r', w', err)" by simp
    from Cons.IH [OF this] show ?thesis by auto
  next
    case (Some s)
    obtain p1 r1 w1 e1 where a: "ask k s p r w = (p1, r1, w1, e1)"
      by (metis prod.exhaust)
    from ask_cases [OF a] obtain j hs1 where
      a1: "w1 = w @ concat (replicate j [k, unrecognized]) @ [k]"
        "history r1 = history r @ hs1" "map snd hs1 = replicate j None @ [e1]"
        "ends r1 = ends r"
        "case e1 of Some e \<Rightarrow> p1 = p \<and> e = ends r \<and> pending r1 = []
          | None \<Rightarrow> (\<exists>v. 1 \<le> v \<and> v \<le> 5 \<and> p1 = s (of_nat v) p)"
      by blast
    have sub: "set (concat (replicate j [k, unrecognized]) @ [k]) \<subseteq> {k, unrecognized}"
      by (induction j) auto
    show ?thesis
    proof (cases e1)
      case (Some e)
      with Cons.prems \<open>pr k = Some s\<close> a have "(p', r', w', err) = (p1, r1, w1, Some e)" by simp
      with a1 Some sub \<open>pr k = Some s\<close> show ?thesis
        by (intro exI [of _ "concat (replicate j [k, unrecognized]) @ [k]"] exI [of _ hs1]
              exI [of _ j]) auto
    next
      case None
      with Cons.prems Some a have "range_prompts pr ks p1 r1 w1 = (p', r', w', err)" by simp
      from Cons.IH [OF this] obtain ws hs n where
        ih: "w' = w1 @ ws" "set ws \<subseteq> (set ks \<inter> dom pr) \<union> {unrecognized}"
          "history r' = history r1 @ hs"
          "map snd hs = replicate n None @ (case err of None \<Rightarrow> [] | Some e \<Rightarrow> [Some e])"
          "ends r' = ends r1" "\<forall>e. err = Some e \<longrightarrow> e = ends r1 \<and> pending r' = []"
        by blast
      have "replicate j None @ [None :: error option] @ replicate n None
          = replicate (Suc (j + n)) None"
        by (simp add: replicate_add replicate_app_Cons_same)
      with a1 ih None sub Some show ?thesis
        by (intro exI [of _ "(concat (replicate j [k, unrecognized]) @ [k]) @ ws"]
              exI [of _ "hs1 @ hs"] exI [of _ "Suc (j + n)"]) auto
    qed
  qed
qed

lemma range_prompts_abort:
  assumes "range_prompts pr order p r w = (p', r', w', Some e)"
  shows "\<exists>answered k s rest r1 w1. order = answered @ k # rest
      \<and> range_prompts pr answered p r w = (p', r1, w1, None)
      \<and> pr k = Some s \<and> ask k s p' r1 w1 = (p', r', w', Some e)"
  using assms
proof (induction order arbitrary: p r w)
  case Nil
  then show ?case by simp
next
  case (Cons k ks)
  show ?case
  proof (cases "pr k")
    case None
    with Cons.prems have "range_prompts pr ks p r w = (p', r', w', Some e)" by simp
    from Cons.IH [OF this] obtain answered k' s rest r1 w1 where
      "ks = answered @ k' # rest" "range_prompts pr answered p r w = (p', r1, w1, None)"
      "pr k' = Some s" "ask k' s p' r1 w1 = (p', r', w', Some e)" by blast
    with None show ?thesis
      by (intro exI [of _ "k # answered"] exI [of _ k'] exI [of _ s] exI [of _ rest]
            exI [of _ r1] exI [of _ w1]) simp
  next
    case (Some s)
    obtain p1 r1 w1 e1 where a: "ask k s p r w = (p1, r1, w1, e1)"
      by (metis prod.exhaust)
    show ?thesis
    proof (cases e1)
      case (Some e')
      with Cons.prems \<open>pr k = Some s\<close> a have eq: "(p', r', w', Some e) = (p1, r1, w1, Some e')" by simp
      with ask_cases [OF a] Some have "p1 = p" by auto
      with eq a Some \<open>pr k = Some s\<close> show ?thesis
        by (intro exI [of _ "[]"] exI [of _ k] exI [of _ s] exI [of _ ks]
              exI [of _ r] exI [of _ w]) simp
    next
      case None
      with Cons.prems Some a have "range_prompts pr ks p1 r1 w1 = (p', r', w', Some e)" by simp
      from Cons.IH [OF this] obtain answered k' s' rest r2 w2 where
        "ks = answered @ k' # rest" "range_prompts pr answered p1 r1 w1 = (p', r2, w2, None)"
        "pr k' = Some s'" "ask k' s' p' r2 w2 = (p', r', w', Some e)" by blast
      with None Some a show ?thesis
        by (intro exI [of _ "k # answered"] exI [of _ k'] exI [of _ s'] exI [of _ rest]
              exI [of _ r2] exI [of _ w2]) simp
    qed
  qed
qed

lemma rating_word:
  assumes "1 \<le> v" and "v \<le> (5::nat)"
  shows "1 \<le> (of_nat v :: uint8) \<and> (of_nat v :: uint8) \<le> 5"
proof -
  from assms have "v = 1 \<or> v = 2 \<or> v = 3 \<or> v = 4 \<or> v = 5" by auto
  then show ?thesis by auto
qed

lemma prompts_cases:
  "prompts p k = Some s \<Longrightarrow>
     (k = highPrompt \<and> s = setHighMood \<and> HighMood p = 0)
   \<or> (k = lowPrompt \<and> s = setLowMood \<and> LowMood p = 0)
   \<or> (k = avgPrompt \<and> s = setAvgMood \<and> AverageMood p = 0)"
  by (auto simp: prompts_def Let_def split: if_splits)

lemma range_prompts_keeps_nonzero:
  assumes run: "range_prompts (prompts p) order p reader w = (p', r', w', err)"
  shows "(HighMood p \<noteq> 0 \<longrightarrow> HighMood p' = HighMood p)
    \<and> (LowMood p \<noteq> 0 \<longrightarrow> LowMood p' = LowMood p)
    \<and> (AverageMood p \<noteq> 0 \<longrightarrow> AverageMood p' = AverageMood p)"
proof -
  have high: "HighMood p' = HighMood p" if nz: "HighMood p \<noteq> 0"
    by (rule range_prompts_invariant [OF run, where I = "\<lambda>q. HighMood q = HighMood p"])
       (use nz in \<open>auto dest!: prompts_cases simp: setLowMood_def setAvgMood_def\<close>)
  have low: "LowMood p' = LowMood p" if nz: "LowMood p \<noteq> 0"
    by (rule range_prompts_invariant [OF run, where I = "\<lambda>q. LowMood q = LowMood p"])
       (use nz in \<open>auto dest!: prompts_cases simp: setHighMood_def setAvgMood_def\<close>)
  have avg: "AverageMood p' = AverageMood p" if nz: "AverageMood p \<noteq> 0"
    by (rule range_prompts_invariant [OF run, where I = "\<lambda>q. AverageMood q = AverageMood p"])
       (use nz in \<open>auto dest!: prompts_cases simp: setHighMood_def setLowMood_def\<close>)
  from high low avg show ?thesis by simp
qed

text \<open>The equations that evaluate a run of the Prompter on a given stream.\<close>

lemmas prompter_eval = PromptForMetadata_def prompts_def highPrompt_def lowPrompt_def
  avgPrompt_def unrecognized_def ask.simps ReadString_def TrimSpace_def Let_def
  DecodeRuneInString_def DecodeLastRuneInString_def RuneSelf_def IsSpace_def MatchString_def
  ratingRegex_def ParseUint_def digit_val_def setHighMood_def setLowMood_def setAvgMood_def

section \<open>Properties of the matcher\<close>

lemma matches_at_bof:
  "BeginText \<notin> set re \<Longrightarrow> matches_at re b t = matches_at re False t"
  by (induction re b t rule: matches_at.induct) auto

lemma matches_Literal:
  assumes "BeginText \<notin> set re"
  shows "matches_at (Literal cs # re) b t
    \<longleftrightarrow> (\<exists>rest. t = map of_char cs @ rest \<and> matches_at re False rest)"
  using assms
proof (induction cs arbitrary: b t)
  case Nil
  then show ?case using matches_at_bof [of re b t] by simp
next
  case (Cons c cs)
  then show ?case by (cases t) auto
qed

lemma matches_Class:
  "matches_at (Class k # re) b t
    \<longleftrightarrow> (\<exists>r rest. t = r # rest \<and> in_class k r \<and> matches_at re False rest)"
  by (cases t) auto

lemma matches_Repeat:
  assumes "BeginText \<notin> set re" and "lo \<le> hi"
  shows "matches_at (Repeat k lo hi # re) b t
    \<longleftrightarrow> (\<exists>xs rest. t = xs @ rest \<and> lo \<le> length xs \<and> length xs \<le> hi
          \<and> list_all (in_class k) xs \<and> matches_at re False rest)"
  using assms(2)
proof (induction hi arbitrary: lo b t)
  case 0
  then show ?case using matches_at_bof [OF assms(1), of b t] by (cases t) auto
next
  case (Suc h)
  show ?case
  proof (cases t)
    case Nil
    then show ?thesis using matches_at_bof [OF assms(1), of b "[]"] by auto
  next
    case (Cons r t')
    show ?thesis
    proof (cases "0 < lo")
      case True
      with Suc.prems have le: "lo - 1 \<le> h" by simp
      have "matches_at (Repeat k lo (Suc h) # re) b t
        \<longleftrightarrow> in_class k r \<and> matches_at (Repeat k (lo - 1) h # re) False t'"
        using Cons True by simp
      also have "\<dots> \<longleftrightarrow> in_class k r \<and> (\<exists>xs rest. t' = xs @ rest \<and> lo - 1 \<le> length xs
          \<and> length xs \<le> h \<and> list_all (in_class k) xs \<and> matches_at re False rest)"
        using Suc.IH [OF le] by simp
      also have "\<dots> \<longleftrightarrow> (\<exists>xs rest. t = xs @ rest \<and> lo \<le> length xs \<and> length xs \<le> Suc h
          \<and> list_all (in_class k) xs \<and> matches_at re False rest)"
      proof
        assume "in_class k r \<and> (\<exists>xs rest. t' = xs @ rest \<and> lo - 1 \<le> length xs
          \<and> length xs \<le> h \<and> list_all (in_class k) xs \<and> matches_at re False rest)"
        then obtain xs rest where "in_class k r" "t' = xs @ rest" "lo - 1 \<le> length xs"
          "length xs \<le> h" "list_all (in_class k) xs" "matches_at re False rest" by blast
        with Cons True show "\<exists>xs rest. t = xs @ rest \<and> lo \<le> length xs \<and> length xs \<le> Suc h
          \<and> list_all (in_class k) xs \<and> matches_at re False rest"
          by (intro exI [of _ "r # xs"] exI [of _ rest]) auto
      next
        assume "\<exists>xs rest. t = xs @ rest \<and> lo \<le> length xs \<and> length xs \<le> Suc h
          \<and> list_all (in_class k) xs \<and> matches_at re False rest"
        then obtain xs rest where x: "t = xs @ rest" "lo \<le> length xs" "length xs \<le> Suc h"
          "list_all (in_class k) xs" "matches_at re False rest" by blast
        with True obtain x xs' where xs: "xs = x # xs'" by (cases xs) auto
        with x Cons have "in_class k r" "t' = xs' @ rest" "lo - 1 \<le> length xs'"
          "length xs' \<le> h" "list_all (in_class k) xs'" by auto
        with x(5) show "in_class k r \<and> (\<exists>xs rest. t' = xs @ rest \<and> lo - 1 \<le> length xs
          \<and> length xs \<le> h \<and> list_all (in_class k) xs \<and> matches_at re False rest)"
          by blast
      qed
      finally show ?thesis .
    next
      case False
      then have lo: "lo = 0" by simp
      have "matches_at (Repeat k lo (Suc h) # re) b t
        \<longleftrightarrow> matches_at re False t \<or> (in_class k r \<and> matches_at (Repeat k 0 h # re) False t')"
        using Cons lo matches_at_bof [OF assms(1), of b t] by auto
      also have "\<dots> \<longleftrightarrow> matches_at re False t \<or> (in_class k r \<and> (\<exists>xs rest. t' = xs @ rest
          \<and> length xs \<le> h \<and> list_all (in_class k) xs \<and> matches_at re False rest))"
        using Suc.IH [of 0] by simp
      also have "\<dots> \<longleftrightarrow> (\<exists>xs rest. t = xs @ rest \<and> lo \<le> length xs \<and> length xs \<le> Suc h
          \<and> list_all (in_class k) xs \<and> matches_at re False rest)"
      proof
        assume "matches_at re False t \<or> (in_class k r \<and> (\<exists>xs rest. t' = xs @ rest
          \<and> length xs \<le> h \<and> list_all (in_class k) xs \<and> matches_at re False rest))"
        then show "\<exists>xs rest. t = xs @ rest \<and> lo \<le> length xs \<and> length xs \<le> Suc h
          \<and> list_all (in_class k) xs \<and> matches_at re False rest"
        proof
          assume "matches_at re False t"
          with lo show ?thesis by (intro exI [of _ "[]"] exI [of _ t]) simp
        next
          assume "in_class k r \<and> (\<exists>xs rest. t' = xs @ rest
            \<and> length xs \<le> h \<and> list_all (in_class k) xs \<and> matches_at re False rest)"
          then obtain xs rest where "in_class k r" "t' = xs @ rest" "length xs \<le> h"
            "list_all (in_class k) xs" "matches_at re False rest" by blast
          with Cons lo show ?thesis by (intro exI [of _ "r # xs"] exI [of _ rest]) simp
        qed
      next
        assume "\<exists>xs rest. t = xs @ rest \<and> lo \<le> length xs \<and> length xs \<le> Suc h
          \<and> list_all (in_class k) xs \<and> matches_at re False rest"
        then obtain xs rest where x: "t = xs @ rest" "length xs \<le> Suc h"
          "list_all (in_class k) xs" "matches_at re False rest" by blast
        show "matches_at re False t \<or> (in_class k r \<and> (\<exists>xs rest. t' = xs @ rest
          \<and> length xs \<le> h \<and> list_all (in_class k) xs \<and> matches_at re False rest))"
        proof (cases xs)
          case Nil
          with x show ?thesis by simp
        next
          case (Cons y ys)
          with x \<open>t = r # t'\<close> show ?thesis by auto
        qed
      qed
      finally show ?thesis .
    qed
  qed
qed

lemma search_iff:
  assumes "BeginText \<notin> set re"
  shows "search re b t \<longleftrightarrow> (\<exists>pre rest. t = pre @ rest \<and> matches_at re False rest)"
proof (induction t arbitrary: b)
  case Nil
  then show ?case using matches_at_bof [OF assms, of b "[]"] by simp
next
  case (Cons r t)
  have "search re b (r # t) \<longleftrightarrow> matches_at re False (r # t) \<or> search re False t"
    using matches_at_bof [OF assms, of b "r # t"] by simp
  also have "\<dots> \<longleftrightarrow> matches_at re False (r # t)
      \<or> (\<exists>pre rest. t = pre @ rest \<and> matches_at re False rest)"
    using Cons.IH by simp
  also have "\<dots> \<longleftrightarrow> (\<exists>pre rest. r # t = pre @ rest \<and> matches_at re False rest)"
  proof
    assume "matches_at re False (r # t)
      \<or> (\<exists>pre rest. t = pre @ rest \<and> matches_at re False rest)"
    then show "\<exists>pre rest. r # t = pre @ rest \<and> matches_at re False rest"
    proof
      assume "matches_at re False (r # t)"
      then show ?thesis by (intro exI [of _ "[]"] exI [of _ "r # t"]) simp
    next
      assume "\<exists>pre rest. t = pre @ rest \<and> matches_at re False rest"
      then obtain pre rest where "t = pre @ rest" "matches_at re False rest" by blast
      then show ?thesis by (intro exI [of _ "r # pre"] exI [of _ rest]) simp
    qed
  next
    assume "\<exists>pre rest. r # t = pre @ rest \<and> matches_at re False rest"
    then obtain pre rest where x: "r # t = pre @ rest" "matches_at re False rest" by blast
    show "matches_at re False (r # t)
      \<or> (\<exists>pre rest. t = pre @ rest \<and> matches_at re False rest)"
    proof (cases pre)
      case Nil
      with x show ?thesis by simp
    next
      case (Cons y ys)
      with x show ?thesis by auto
    qed
  qed
  finally show ?case .
qed

lemma matches_Repeat_exact:
  assumes "BeginText \<notin> set re"
  shows "matches_at (Repeat k n n # re) b t
    \<longleftrightarrow> (\<exists>xs rest. t = xs @ rest \<and> length xs = n
          \<and> list_all (in_class k) xs \<and> matches_at re False rest)"
proof -
  have "(n \<le> l \<and> l \<le> n \<and> P) = (l = n \<and> P)" for l P by auto
  then show ?thesis by (simp add: matches_Repeat [OF assms order_refl])
qed

lemma matches_Repeat_1_2:
  assumes "BeginText \<notin> set re"
  shows "matches_at (Repeat k 1 2 # re) b t
    \<longleftrightarrow> (\<exists>xs rest. t = xs @ rest \<and> (length xs = 1 \<or> length xs = 2)
          \<and> list_all (in_class k) xs \<and> matches_at re False rest)"
proof -
  have "(Suc 0 \<le> l \<and> l \<le> 2 \<and> P) = ((l = Suc 0 \<or> l = 2) \<and> P)" for l :: nat and P
    by auto
  then show ?thesis by (simp add: matches_Repeat [OF assms])
qed



lemma entryRegex_nested:
  "matches_at entryRegex False t \<longleftrightarrow>
    (\<exists>y t1. t = y @ t1 \<and> length y = 4 \<and> list_all (in_class Digit) y \<and>
     (\<exists>t2. t1 = map of_char ''-'' @ t2 \<and>
     (\<exists>m t3. t2 = m @ t3 \<and> length m = 2 \<and> list_all (in_class Digit) m \<and>
     (\<exists>t4. t3 = map of_char ''-'' @ t4 \<and>
     (\<exists>d t5. t4 = d @ t5 \<and> length d = 2 \<and> list_all (in_class Digit) d \<and>
     (\<exists>t6. t5 = map of_char ''-Journal-Entry-for-'' @ t6 \<and>
     (\<exists>mon t7. t6 = mon @ t7 \<and> length mon = 3 \<and> list_all (in_class NonDigit) mon \<and>
     (\<exists>t8. t7 = map of_char ''-'' @ t8 \<and>
     (\<exists>dd t9. t8 = dd @ t9 \<and> (length dd = 1 \<or> length dd = 2)
         \<and> list_all (in_class Digit) dd \<and>
     (\<exists>x t10. t9 = x # t10 \<and> in_class AnyCharNotNL x \<and>
     (\<exists>post. t10 = map of_char ''md'' @ post)))))))))))"
  unfolding entryRegex_def
  apply (subst matches_Repeat_exact, simp)
  apply (subst matches_Literal, simp)
  apply (subst matches_Repeat_exact, simp)
  apply (subst matches_Literal, simp)
  apply (subst matches_Repeat_exact, simp)
  apply (subst matches_Literal, simp)
  apply (subst matches_Repeat_exact, simp)
  apply (subst matches_Literal, simp)
  apply (subst matches_Repeat_1_2, simp)
  apply (subst matches_Class)
  apply (subst matches_Literal, simp)
  apply (simp only: matches_at.simps simp_thms)
  done


lemma matches_entryRegex:
  "matches_at entryRegex False t \<longleftrightarrow>
    (\<exists>y m d mon dd x post.
       t = y @ map of_char ''-'' @ m @ map of_char ''-'' @ d
             @ map of_char ''-Journal-Entry-for-'' @ mon @ map of_char ''-'' @ dd
             @ [x] @ map of_char ''md'' @ post
       \<and> length y = 4 \<and> list_all (in_class Digit) y
       \<and> length m = 2 \<and> list_all (in_class Digit) m
       \<and> length d = 2 \<and> list_all (in_class Digit) d
       \<and> length mon = 3 \<and> list_all (in_class NonDigit) mon
       \<and> (length dd = 1 \<or> length dd = 2) \<and> list_all (in_class Digit) dd
       \<and> in_class AnyCharNotNL x)"
  (is "?L \<longleftrightarrow> ?R")
proof
  assume ?L
  then show ?R
    unfolding entryRegex_nested
    apply (elim exE conjE)
    subgoal for y t1 t2 m t3 t4 d t5 t6 mon t7 t8 dd t9 x t10 post
      apply (rule exI [of _ y], rule exI [of _ m], rule exI [of _ d], rule exI [of _ mon])
      apply (rule exI [of _ dd], rule exI [of _ x], rule exI [of _ post])
      apply simp
      done
    done
next
  assume ?R
  then show ?L
    unfolding entryRegex_nested
    apply (elim exE conjE)
    subgoal for y m d mon dd x post
      apply (rule exI [of _ y], rule exI [of _ "map of_char ''-'' @ m @ map of_char ''-'' @ d
             @ map of_char ''-Journal-Entry-for-'' @ mon @ map of_char ''-'' @ dd
             @ [x] @ map of_char ''md'' @ post"], simp)
      apply (rule exI [of _ m], rule exI [of _ "map of_char ''-'' @ d
             @ map of_char ''-Journal-Entry-for-'' @ mon @ map of_char ''-'' @ dd
             @ [x] @ map of_char ''md'' @ post"], simp)
      apply (rule exI [of _ d], rule exI [of _ "map of_char ''-Journal-Entry-for-'' @ mon
             @ map of_char ''-'' @ dd @ [x] @ map of_char ''md'' @ post"], simp)
      apply (rule exI [of _ mon], rule exI [of _ "map of_char ''-'' @ dd
             @ [x] @ map of_char ''md'' @ post"], simp)
      apply (rule exI [of _ dd], rule exI [of _ "[x] @ map of_char ''md'' @ post"], simp)
      done
    done
qed

text \<open>The equations that evaluate a match on a given string.\<close>

lemmas match_eval = IsEntry_def MatchString_def entryRegex_def specEntryPattern_def
  DecodeRuneInString_def RuneSelf_def Let_def

section \<open>The claim about recognising entry files\<close>

text \<open>
  C3. As stated the claim fails. The pattern of the source takes any three
  characters that are not digits for the month, so a month with a blank in it is
  recognised although it is not three non-whitespace characters; and a month with a
  digit in it, which is three non-whitespace characters, is not recognised.
\<close>

theorem IsEntry_month_counterexample:
  "IsEntry ''2023-07-04-Journal-Entry-for-J l-4.md''
   \<and> \<not> MatchString specEntryPattern ''2023-07-04-Journal-Entry-for-J l-4.md''
   \<and> \<not> IsEntry ''2023-07-04-Journal-Entry-for-J1l-4.md''
   \<and> MatchString specEntryPattern ''2023-07-04-Journal-Entry-for-J1l-4.md''"
  by (simp add: match_eval)

text \<open>
  C3, amended. \<open>IsEntry\<close> holds for every string that contains, at any place, four
  digits, dash, two digits, dash, two digits, \<open>-Journal-Entry-for-\<close>, three characters
  none of which is a digit, dash, one or two digits and \<open>.md\<close>. It holds for no
  string that lacks such a run up to the day, followed by one character and \<open>md\<close>.
  So the name of the example is recognised, and a name with a four-letter month, a
  name without the day, and a name with another separator are not.
\<close>

theorem IsEntry_pattern:
  "(length y = 4 \<and> list_all (in_class Digit) y
      \<and> length m = 2 \<and> list_all (in_class Digit) m
      \<and> length d = 2 \<and> list_all (in_class Digit) d
      \<and> length mon = 3 \<and> list_all (in_class NonDigit) mon
      \<and> (length dd = 1 \<or> length dd = 2) \<and> list_all (in_class Digit) dd
      \<and> runes s = pre @ y @ map of_char ''-'' @ m @ map of_char ''-'' @ d
             @ map of_char ''-Journal-Entry-for-'' @ mon @ map of_char ''-'' @ dd
             @ map of_char ''.md'' @ post
      \<longrightarrow> IsEntry s)
   \<and> (IsEntry s \<longrightarrow>
        (\<exists>pre y m d mon dd x post.
           runes s = pre @ y @ map of_char ''-'' @ m @ map of_char ''-'' @ d
             @ map of_char ''-Journal-Entry-for-'' @ mon @ map of_char ''-'' @ dd
             @ [x] @ map of_char ''md'' @ post
           \<and> length y = 4 \<and> list_all (in_class Digit) y
           \<and> length m = 2 \<and> list_all (in_class Digit) m
           \<and> length d = 2 \<and> list_all (in_class Digit) d
           \<and> length mon = 3 \<and> list_all (in_class NonDigit) mon
           \<and> (length dd = 1 \<or> length dd = 2) \<and> list_all (in_class Digit) dd))
   \<and> IsEntry ''2023-07-04-Journal-Entry-for-Jul-4.md''
   \<and> \<not> IsEntry ''2023-07-04-Journal-Entry-for-July-4.md''
   \<and> \<not> IsEntry ''2023-07-04-Journal-Entry-for-Jul.md''
   \<and> \<not> IsEntry ''2023_07_04-Journal-Entry-for-Jul-4.md''"
proof -
  have nb: "BeginText \<notin> set entryRegex" by (simp add: entryRegex_def)
  have iff: "IsEntry s \<longleftrightarrow> (\<exists>pre rest. runes s = pre @ rest \<and> matches_at entryRegex False rest)"
    by (simp add: IsEntry_def MatchString_def search_iff [OF nb])
  have suff: "IsEntry s"
    if "length y = 4" "list_all (in_class Digit) y"
      "length m = 2" "list_all (in_class Digit) m"
      "length d = 2" "list_all (in_class Digit) d"
      "length mon = 3" "list_all (in_class NonDigit) mon"
      "length dd = 1 \<or> length dd = 2" "list_all (in_class Digit) dd"
      "runes s = pre @ y @ map of_char ''-'' @ m @ map of_char ''-'' @ d
             @ map of_char ''-Journal-Entry-for-'' @ mon @ map of_char ''-'' @ dd
             @ map of_char ''.md'' @ post"
  proof -
    have "matches_at entryRegex False (y @ map of_char ''-'' @ m @ map of_char ''-'' @ d
             @ map of_char ''-Journal-Entry-for-'' @ mon @ map of_char ''-'' @ dd
             @ map of_char ''.md'' @ post)"
      unfolding matches_entryRegex using that(1-10)
      apply -
      apply (rule exI [of _ y])
      apply (rule exI [of _ m])
      apply (rule exI [of _ d])
      apply (rule exI [of _ mon])
      apply (rule exI [of _ dd])
      apply (rule exI [of _ 46])
      apply (rule exI [of _ post])
      apply simp
      done
    with that(11) show ?thesis unfolding iff
      apply -
      apply (rule exI [of _ pre])
      apply (rule exI [of _ "y @ map of_char ''-'' @ m @ map of_char ''-'' @ d
             @ map of_char ''-Journal-Entry-for-'' @ mon @ map of_char ''-'' @ dd
             @ map of_char ''.md'' @ post"])
      apply simp
      done
  qed
  have nec: "\<exists>pre y m d mon dd x post.
           runes s = pre @ y @ map of_char ''-'' @ m @ map of_char ''-'' @ d
             @ map of_char ''-Journal-Entry-for-'' @ mon @ map of_char ''-'' @ dd
             @ [x] @ map of_char ''md'' @ post
           \<and> length y = 4 \<and> list_all (in_class Digit) y
           \<and> length m = 2 \<and> list_all (in_class Digit) m
           \<and> length d = 2 \<and> list_all (in_class Digit) d
           \<and> length mon = 3 \<and> list_all (in_class NonDigit) mon
           \<and> (length dd = 1 \<or> length dd = 2) \<and> list_all (in_class Digit) dd"
    if "IsEntry s"
  proof -
    from that obtain pre rest where r: "runes s = pre @ rest" "matches_at entryRegex False rest"
      unfolding iff by blast
    from r(2) [unfolded matches_entryRegex] show ?thesis
      apply -
      apply (elim exE conjE)
      subgoal for y m d mon dd x post
        apply (rule exI [of _ pre], rule exI [of _ y], rule exI [of _ m], rule exI [of _ d])
        apply (rule exI [of _ mon], rule exI [of _ dd], rule exI [of _ x])
        apply (rule exI [of _ post])
        apply (simp add: r(1))
        done
      done
  qed
  have ex: "IsEntry ''2023-07-04-Journal-Entry-for-Jul-4.md''"
    "\<not> IsEntry ''2023-07-04-Journal-Entry-for-July-4.md''"
    "\<not> IsEntry ''2023-07-04-Journal-Entry-for-Jul.md''"
    "\<not> IsEntry ''2023_07_04-Journal-Entry-for-Jul-4.md''"
    by (simp_all add: match_eval)
  show ?thesis
    apply (intro conjI impI)
         apply (elim conjE, rule suff, assumption+)
        apply (erule nec)
       apply (rule ex)+
    done
qed

theorem IsEntry_pattern_witness:
  "IsEntry ''/j/1999-12-31-Journal-Entry-for-Dec-31.md''"
proof -
  have "runes ''/j/1999-12-31-Journal-Entry-for-Dec-31.md'' =
    map of_char ''/j/'' @ map of_char ''1999'' @ map of_char ''-'' @ map of_char ''12''
      @ map of_char ''-'' @ map of_char ''31'' @ map of_char ''-Journal-Entry-for-''
      @ map of_char ''Dec'' @ map of_char ''-'' @ map of_char ''31''
      @ map of_char ''.md'' @ []"
    by (simp add: DecodeRuneInString_def RuneSelf_def)
  with IsEntry_pattern [of "map of_char ''1999''" "map of_char ''12''" "map of_char ''31''"
      "map of_char ''Dec''" "map of_char ''31''" "''/j/1999-12-31-Journal-Entry-for-Dec-31.md''"
      "map of_char ''/j/''" "[]"]
  show ?thesis by simp
qed

section \<open>The claims about the Prompter\<close>

text \<open>
  C6. When every mood field already holds a rating from 1 to 5, the Prompter reads
  nothing, writes nothing and returns the Entry as it was; and whatever the other
  fields hold, a field that holds a rating from 1 to 5 keeps it.
\<close>

theorem prompter_fills_blanks_only:
  "(1 \<le> HighMood p \<and> HighMood p \<le> 5 \<and> 1 \<le> LowMood p \<and> LowMood p \<le> 5
      \<and> 1 \<le> AverageMood p \<and> AverageMood p \<le> 5
      \<longrightarrow> PromptForMetadata order p reader w = (p, reader, w, None))
   \<and> (1 \<le> HighMood p \<and> HighMood p \<le> 5
      \<longrightarrow> HighMood (fst (PromptForMetadata order p reader w)) = HighMood p)
   \<and> (1 \<le> LowMood p \<and> LowMood p \<le> 5
      \<longrightarrow> LowMood (fst (PromptForMetadata order p reader w)) = LowMood p)
   \<and> (1 \<le> AverageMood p \<and> AverageMood p \<le> 5
      \<longrightarrow> AverageMood (fst (PromptForMetadata order p reader w)) = AverageMood p)"
proof -
  obtain p' r' w' err where run: "range_prompts (prompts p) order p reader w = (p', r', w', err)"
    by (metis prod.exhaust)
  have none: "range_prompts Map.empty ks q r v = (q, r, v, None)" for ks q r v
    by (induction ks) simp_all
  have all: "PromptForMetadata order p reader w = (p, reader, w, None)"
    if "1 \<le> HighMood p" "1 \<le> LowMood p" "1 \<le> AverageMood p"
  proof -
    from that have "HighMood p \<noteq> 0" "LowMood p \<noteq> 0" "AverageMood p \<noteq> 0" by auto
    then have "prompts p = Map.empty" by (simp add: prompts_def)
    then show ?thesis by (simp add: PromptForMetadata_def none)
  qed
  have high: "HighMood p' = HighMood p" if "1 \<le> HighMood p"
  proof -
    from that have nz: "HighMood p \<noteq> 0" by auto
    show ?thesis
      by (rule range_prompts_invariant [OF run, where I = "\<lambda>q. HighMood q = HighMood p"])
         (use nz in \<open>auto dest!: prompts_cases simp: setLowMood_def setAvgMood_def\<close>)
  qed
  have low: "LowMood p' = LowMood p" if "1 \<le> LowMood p"
  proof -
    from that have nz: "LowMood p \<noteq> 0" by auto
    show ?thesis
      by (rule range_prompts_invariant [OF run, where I = "\<lambda>q. LowMood q = LowMood p"])
         (use nz in \<open>auto dest!: prompts_cases simp: setHighMood_def setAvgMood_def\<close>)
  qed
  have avg: "AverageMood p' = AverageMood p" if "1 \<le> AverageMood p"
  proof -
    from that have nz: "AverageMood p \<noteq> 0" by auto
    show ?thesis
      by (rule range_prompts_invariant [OF run, where I = "\<lambda>q. AverageMood q = AverageMood p"])
         (use nz in \<open>auto dest!: prompts_cases simp: setHighMood_def setLowMood_def\<close>)
  qed
  from all high low avg run show ?thesis by (simp add: PromptForMetadata_def)
qed

theorem prompter_fills_blanks_only_witness:
  "PromptForMetadata []
     \<lparr>Seconds = 0, LowMood = 4, HighMood = 3, AverageMood = 2, Body = ''b'', Path = ''p'',
      ModTime = zeroTime\<rparr>
     \<lparr>pending = [CHR ''1'', CHR 0x0A], ends = EOF, history = []\<rparr> []
   = (\<lparr>Seconds = 0, LowMood = 4, HighMood = 3, AverageMood = 2, Body = ''b'', Path = ''p'',
      ModTime = zeroTime\<rparr>,
      \<lparr>pending = [CHR ''1'', CHR 0x0A], ends = EOF, history = []\<rparr>, [], None)
   \<and> HighMood (fst (PromptForMetadata [lowPrompt, avgPrompt]
     \<lparr>Seconds = 0, LowMood = 0, HighMood = 3, AverageMood = 0, Body = ''b'', Path = ''p'',
      ModTime = zeroTime\<rparr>
     \<lparr>pending = [CHR ''4'', CHR 0x0A, CHR ''2'', CHR 0x0A], ends = EOF, history = []\<rparr> [])) = 3"
  using prompter_fills_blanks_only [of
     "\<lparr>Seconds = 0, LowMood = 4, HighMood = 3, AverageMood = 2, Body = ''b'', Path = ''p'',
      ModTime = zeroTime\<rparr>" "[]"
     "\<lparr>pending = [CHR ''1'', CHR 0x0A], ends = EOF, history = []\<rparr>" "[]"]
    prompter_fills_blanks_only [of
     "\<lparr>Seconds = 0, LowMood = 0, HighMood = 3, AverageMood = 0, Body = ''b'', Path = ''p'',
      ModTime = zeroTime\<rparr>" "[lowPrompt, avgPrompt]"
     "\<lparr>pending = [CHR ''4'', CHR 0x0A, CHR ''2'', CHR 0x0A], ends = EOF, history = []\<rparr>" "[]"]
  by simp

text \<open>
  C2. As stated the claim fails: the prompts are the keys of a Go map, and a \<open>range\<close>
  over a map visits them in no fixed order. When the low-mood prompt is visited
  first, the input 3, 4, 2 gives \<open>LowMood = 3\<close> and \<open>HighMood = 4\<close>.
\<close>

theorem fill_in_order_counterexample:
  "range_order
     (prompts \<lparr>Seconds = 0, LowMood = 0, HighMood = 0, AverageMood = 0, Body = [],
        Path = ''p'', ModTime = zeroTime\<rparr>)
     [lowPrompt, highPrompt, avgPrompt]
   \<and> PromptForMetadata [lowPrompt, highPrompt, avgPrompt]
      \<lparr>Seconds = 0, LowMood = 0, HighMood = 0, AverageMood = 0, Body = [], Path = ''p'',
       ModTime = zeroTime\<rparr>
      \<lparr>pending = [CHR ''3'', CHR 0x0A, CHR ''4'', CHR 0x0A, CHR ''2'', CHR 0x0A],
       ends = EOF, history = []\<rparr> []
    = (\<lparr>Seconds = 0, LowMood = 3, HighMood = 4, AverageMood = 2, Body = [], Path = ''p'',
        ModTime = zeroTime\<rparr>,
       \<lparr>pending = [], ends = EOF,
        history = [([CHR ''3'', CHR 0x0A], None), ([CHR ''4'', CHR 0x0A], None),
                   ([CHR ''2'', CHR 0x0A], None)]\<rparr>,
       [lowPrompt, highPrompt, avgPrompt], None)"
  by (simp add: range_order_def prompter_eval insert_commute)

text \<open>
  C2, amended. With all three mood fields 0 and the input 3, 4, 2 (one per line),
  the Prompter ends without an error after three reads and writes exactly three
  strings: the three prompts, each once, in the order in which the \<open>range\<close> visits
  the map. The ratings 3, 4 and 2 go to the fields in that order, so
  \<open>HighMood = 3\<close>, \<open>LowMood = 4\<close>, \<open>AverageMood = 2\<close> when the order is high, low,
  average.
\<close>

theorem fill_in_follows_range_order:
  assumes "HighMood p = 0" and "LowMood p = 0" and "AverageMood p = 0"
    and "range_order (prompts p) order"
    and "pending reader = [CHR ''3'', CHR 0x0A, CHR ''4'', CHR 0x0A, CHR ''2'', CHR 0x0A]"
  shows "\<exists>k1 k2 k3 p'. order = [k1, k2, k3]
    \<and> set order = {highPrompt, lowPrompt, avgPrompt}
    \<and> PromptForMetadata order p reader w =
        (p', reader\<lparr>pending := [], history := history reader
               @ [([CHR ''3'', CHR 0x0A], None), ([CHR ''4'', CHR 0x0A], None),
                  ([CHR ''2'', CHR 0x0A], None)]\<rparr>,
         w @ [k1, k2, k3], None)
    \<and> prompted_field k1 p' = 3 \<and> prompted_field k2 p' = 4 \<and> prompted_field k3 p' = 2
    \<and> (order = [highPrompt, lowPrompt, avgPrompt]
         \<longrightarrow> HighMood p' = 3 \<and> LowMood p' = 4 \<and> AverageMood p' = 2)"
proof -
  from assms(1-3) have dom: "dom (prompts p) = {highPrompt, lowPrompt, avgPrompt}"
    by (auto simp: prompts_def)
  have ne: "highPrompt \<noteq> lowPrompt" "highPrompt \<noteq> avgPrompt" "lowPrompt \<noteq> avgPrompt"
    by (simp_all add: highPrompt_def lowPrompt_def avgPrompt_def)
  from assms(4) dom have d: "distinct order" and s: "set order = {highPrompt, lowPrompt, avgPrompt}"
    by (simp_all add: range_order_def)
  have "card {highPrompt, lowPrompt, avgPrompt} = 3" using ne by simp
  with distinct_card [OF d] s have "length order = 3" by simp
  then obtain k1 k2 k3 where o: "order = [k1, k2, k3]"
    by (auto simp: numeral_3_eq_3 length_Suc_conv)
  from s o have m: "k1 = highPrompt \<or> k1 = lowPrompt \<or> k1 = avgPrompt"
    "k2 = highPrompt \<or> k2 = lowPrompt \<or> k2 = avgPrompt"
    "k3 = highPrompt \<or> k3 = lowPrompt \<or> k3 = avgPrompt"
    by auto
  from d o have dd: "k1 \<noteq> k2" "k1 \<noteq> k3" "k2 \<noteq> k3" by auto
  from m dd have "order = [highPrompt, lowPrompt, avgPrompt]
    \<or> order = [highPrompt, avgPrompt, lowPrompt]
    \<or> order = [lowPrompt, highPrompt, avgPrompt]
    \<or> order = [lowPrompt, avgPrompt, highPrompt]
    \<or> order = [avgPrompt, highPrompt, lowPrompt]
    \<or> order = [avgPrompt, lowPrompt, highPrompt]"
    unfolding o by (elim disjE) simp_all
  then show ?thesis
  proof (elim disjE)
    assume o: "order = [highPrompt, lowPrompt, avgPrompt]"
    show ?thesis
      unfolding o using assms(1,2,3,5)
      by (simp add: prompter_eval prompted_field_def insert_commute)
  next
    assume o: "order = [highPrompt, avgPrompt, lowPrompt]"
    show ?thesis
      unfolding o using assms(1,2,3,5)
      by (simp add: prompter_eval prompted_field_def insert_commute)
  next
    assume o: "order = [lowPrompt, highPrompt, avgPrompt]"
    show ?thesis
      unfolding o using assms(1,2,3,5)
      by (simp add: prompter_eval prompted_field_def insert_commute)
  next
    assume o: "order = [lowPrompt, avgPrompt, highPrompt]"
    show ?thesis
      unfolding o using assms(1,2,3,5)
      by (simp add: prompter_eval prompted_field_def insert_commute)
  next
    assume o: "order = [avgPrompt, highPrompt, lowPrompt]"
    show ?thesis
      unfolding o using assms(1,2,3,5)
      by (simp add: prompter_eval prompted_field_def insert_commute)
  next
    assume o: "order = [avgPrompt, lowPrompt, highPrompt]"
    show ?thesis
      unfolding o using assms(1,2,3,5)
      by (simp add: prompter_eval prompted_field_def insert_commute)
  qed
qed

theorem fill_in_follows_range_order_witness:
  "HighMood (fst (PromptForMetadata [highPrompt, lowPrompt, avgPrompt]
      \<lparr>Seconds = 0, LowMood = 0, HighMood = 0, AverageMood = 0, Body = [], Path = ''p'',
       ModTime = zeroTime\<rparr>
      \<lparr>pending = [CHR ''3'', CHR 0x0A, CHR ''4'', CHR 0x0A, CHR ''2'', CHR 0x0A],
       ends = EOF, history = []\<rparr> [])) = 3
   \<and> LowMood (fst (PromptForMetadata [highPrompt, lowPrompt, avgPrompt]
      \<lparr>Seconds = 0, LowMood = 0, HighMood = 0, AverageMood = 0, Body = [], Path = ''p'',
       ModTime = zeroTime\<rparr>
      \<lparr>pending = [CHR ''3'', CHR 0x0A, CHR ''4'', CHR 0x0A, CHR ''2'', CHR 0x0A],
       ends = EOF, history = []\<rparr> [])) = 4
   \<and> AverageMood (fst (PromptForMetadata [highPrompt, lowPrompt, avgPrompt]
      \<lparr>Seconds = 0, LowMood = 0, HighMood = 0, AverageMood = 0, Body = [], Path = ''p'',
       ModTime = zeroTime\<rparr>
      \<lparr>pending = [CHR ''3'', CHR 0x0A, CHR ''4'', CHR 0x0A, CHR ''2'', CHR 0x0A],
       ends = EOF, history = []\<rparr> [])) = 2"
proof -
  let ?p = "\<lparr>Seconds = 0, LowMood = 0, HighMood = 0, AverageMood = 0, Body = [], Path = ''p'',
       ModTime = zeroTime\<rparr>"
  let ?r = "\<lparr>pending = [CHR ''3'', CHR 0x0A, CHR ''4'', CHR 0x0A, CHR ''2'', CHR 0x0A],
       ends = EOF, history = []\<rparr>"
  have ro: "range_order (prompts ?p) [highPrompt, lowPrompt, avgPrompt]"
    by (simp add: range_order_def prompts_def highPrompt_def lowPrompt_def avgPrompt_def
          insert_commute)
  have "HighMood ?p = 0" "LowMood ?p = 0" "AverageMood ?p = 0"
    "pending ?r = [CHR ''3'', CHR 0x0A, CHR ''4'', CHR 0x0A, CHR ''2'', CHR 0x0A]"
    by simp_all
  from fill_in_follows_range_order [OF this(1,2,3) ro this(4), of "[]"]
  show ?thesis by auto
qed

text \<open>
  C9. The Prompter asks only for the mood fields that are exactly 0. A field that
  holds any other value, also one outside 1 to 5 such as 200, is left as it is and
  its prompt is never written; every string written is the prompt of a field that
  was 0, or the rejection line.
\<close>

theorem prompter_asks_only_zero_fields:
  assumes "PromptForMetadata order p reader w = (p', r', w', err)"
  shows "\<exists>ws. w' = w @ ws
    \<and> (HighMood p \<noteq> 0 \<longrightarrow> HighMood p' = HighMood p \<and> highPrompt \<notin> set ws)
    \<and> (LowMood p \<noteq> 0 \<longrightarrow> LowMood p' = LowMood p \<and> lowPrompt \<notin> set ws)
    \<and> (AverageMood p \<noteq> 0 \<longrightarrow> AverageMood p' = AverageMood p \<and> avgPrompt \<notin> set ws)
    \<and> (\<forall>x \<in> set ws. x = unrecognized \<or> (x = highPrompt \<and> HighMood p = 0)
          \<or> (x = lowPrompt \<and> LowMood p = 0) \<or> (x = avgPrompt \<and> AverageMood p = 0))"
proof -
  from assms have run: "range_prompts (prompts p) order p reader w = (p', r', w', err)"
    by (simp add: PromptForMetadata_def)
  from range_prompts_io [OF run] obtain ws where
    ws: "w' = w @ ws" "set ws \<subseteq> (set order \<inter> dom (prompts p)) \<union> {unrecognized}"
    by blast
  have dom: "x = unrecognized \<or> (x = highPrompt \<and> HighMood p = 0)
          \<or> (x = lowPrompt \<and> LowMood p = 0) \<or> (x = avgPrompt \<and> AverageMood p = 0)"
    if "x \<in> set ws" for x
    using that ws(2) by (auto dest!: prompts_cases)
  have ne: "highPrompt \<noteq> unrecognized" "lowPrompt \<noteq> unrecognized" "avgPrompt \<noteq> unrecognized"
    "highPrompt \<noteq> lowPrompt" "highPrompt \<noteq> avgPrompt" "lowPrompt \<noteq> avgPrompt"
    by (simp_all add: highPrompt_def lowPrompt_def avgPrompt_def unrecognized_def)
  have high: "HighMood p' = HighMood p" if nz: "HighMood p \<noteq> 0"
    by (rule range_prompts_invariant [OF run, where I = "\<lambda>q. HighMood q = HighMood p"])
       (use nz in \<open>auto dest!: prompts_cases simp: setLowMood_def setAvgMood_def\<close>)
  have low: "LowMood p' = LowMood p" if nz: "LowMood p \<noteq> 0"
    by (rule range_prompts_invariant [OF run, where I = "\<lambda>q. LowMood q = LowMood p"])
       (use nz in \<open>auto dest!: prompts_cases simp: setHighMood_def setAvgMood_def\<close>)
  have avg: "AverageMood p' = AverageMood p" if nz: "AverageMood p \<noteq> 0"
    by (rule range_prompts_invariant [OF run, where I = "\<lambda>q. AverageMood q = AverageMood p"])
       (use nz in \<open>auto dest!: prompts_cases simp: setHighMood_def setLowMood_def\<close>)
  have nh: "highPrompt \<notin> set ws" if "HighMood p \<noteq> 0"
    using dom [of highPrompt] ne that by auto
  have nl: "lowPrompt \<notin> set ws" if "LowMood p \<noteq> 0"
    using dom [of lowPrompt] ne that by auto
  have na: "avgPrompt \<notin> set ws" if "AverageMood p \<noteq> 0"
    using dom [of avgPrompt] ne that by auto
  from ws(1) dom high low avg nh nl na show ?thesis
    by (intro exI [of _ ws]) simp
qed

theorem prompter_asks_only_zero_fields_witness:
  "\<exists>ws. [lowPrompt, avgPrompt] = [] @ ws
    \<and> HighMood \<lparr>Seconds = 0, LowMood = 4, HighMood = 200, AverageMood = 2, Body = ''b'',
         Path = ''p'', ModTime = zeroTime\<rparr> = 200
    \<and> highPrompt \<notin> set ws"
proof -
  let ?p = "\<lparr>Seconds = 0, LowMood = 0, HighMood = 200, AverageMood = 0, Body = ''b'',
    Path = ''p'', ModTime = zeroTime\<rparr>"
  let ?r = "\<lparr>pending = [CHR ''4'', CHR 0x0A, CHR ''2'', CHR 0x0A], ends = EOF, history = []\<rparr>"
  have run: "PromptForMetadata [lowPrompt, avgPrompt] ?p ?r []
    = (\<lparr>Seconds = 0, LowMood = 4, HighMood = 200, AverageMood = 2, Body = ''b'',
         Path = ''p'', ModTime = zeroTime\<rparr>,
       \<lparr>pending = [], ends = EOF,
        history = [([CHR ''4'', CHR 0x0A], None), ([CHR ''2'', CHR 0x0A], None)]\<rparr>,
       [lowPrompt, avgPrompt], None)"
    by (simp add: prompter_eval)
  from prompter_asks_only_zero_fields [OF run] show ?thesis by simp
qed

text \<open>
  C10. The Prompter leaves \<open>Seconds\<close>, \<open>Body\<close>, \<open>Path\<close> and \<open>ModTime\<close> as they were, and
  a mood field either keeps its value or receives a rating from 1 to 5.
\<close>

theorem prompter_frame:
  assumes "PromptForMetadata order p reader w = (p', r', w', err)"
  shows "Seconds p' = Seconds p \<and> Body p' = Body p \<and> Path p' = Path p
    \<and> ModTime p' = ModTime p
    \<and> (HighMood p' = HighMood p \<or> (1 \<le> HighMood p' \<and> HighMood p' \<le> 5))
    \<and> (LowMood p' = LowMood p \<or> (1 \<le> LowMood p' \<and> LowMood p' \<le> 5))
    \<and> (AverageMood p' = AverageMood p \<or> (1 \<le> AverageMood p' \<and> AverageMood p' \<le> 5))"
proof -
  from assms have run: "range_prompts (prompts p) order p reader w = (p', r', w', err)"
    by (simp add: PromptForMetadata_def)
  define I where "I = (\<lambda>q :: Entry. Seconds q = Seconds p \<and> Body q = Body p \<and> Path q = Path p
    \<and> ModTime q = ModTime p
    \<and> (HighMood q = HighMood p \<or> (1 \<le> HighMood q \<and> HighMood q \<le> 5))
    \<and> (LowMood q = LowMood p \<or> (1 \<le> LowMood q \<and> LowMood q \<le> 5))
    \<and> (AverageMood q = AverageMood p \<or> (1 \<le> AverageMood q \<and> AverageMood q \<le> 5)))"
  have step: "I (s (of_nat v) q)"
    if "prompts p k = Some s" and "1 \<le> v" and "v \<le> 5" and "I q" for k s v q
    using prompts_cases [OF that(1)] rating_word [OF that(2,3)] that(4)
    by (auto simp: I_def setHighMood_def setLowMood_def setAvgMood_def)
  have "I p" by (simp add: I_def)
  with run have "I p'" using step by (rule range_prompts_invariant)
  then show ?thesis by (simp add: I_def)
qed

theorem prompter_frame_witness:
  "Seconds \<lparr>Seconds = 7, LowMood = 4, HighMood = 200, AverageMood = 2, Body = ''b'',
         Path = ''p'', ModTime = zeroTime\<rparr> = 7
   \<and> (1::uint8) \<le> 4 \<and> (4::uint8) \<le> 5"
proof -
  let ?p = "\<lparr>Seconds = 7, LowMood = 0, HighMood = 200, AverageMood = 0, Body = ''b'',
    Path = ''p'', ModTime = zeroTime\<rparr>"
  let ?r = "\<lparr>pending = [CHR ''4'', CHR 0x0A, CHR ''2'', CHR 0x0A], ends = EOF, history = []\<rparr>"
  have run: "PromptForMetadata [lowPrompt, avgPrompt] ?p ?r []
    = (\<lparr>Seconds = 7, LowMood = 4, HighMood = 200, AverageMood = 2, Body = ''b'',
         Path = ''p'', ModTime = zeroTime\<rparr>,
       \<lparr>pending = [], ends = EOF,
        history = [([CHR ''4'', CHR 0x0A], None), ([CHR ''2'', CHR 0x0A], None)]\<rparr>,
       [lowPrompt, avgPrompt], None)"
    by (simp add: prompter_eval)
  from prompter_frame [OF run] show ?thesis by simp
qed

text \<open>
  C8. The reads of a run succeed one after the other until, at most, a last one that
  fails; the run returns an error exactly when that happens, and the error is the
  one the stream reported. The run then stops at once: the questions before the
  failing one were answered, the Entry returned is the Entry they produced, and the
  last thing written is the prompt whose answer could not be read. A mood field that
  was set before the run keeps its value.
\<close>

theorem read_failure_aborts:
  assumes "PromptForMetadata order p reader w = (p', r', w', err)"
  shows "\<exists>hs n. history r' = history reader @ hs
      \<and> map snd hs = replicate n None @ (case err of None \<Rightarrow> [] | Some e \<Rightarrow> [Some e])
      \<and> (\<forall>e. err = Some e \<longrightarrow> e = ends reader
            \<and> (\<exists>answered k rest r1 w1. order = answered @ k # rest
                 \<and> PromptForMetadata answered p reader w = (p', r1, w1, None)
                 \<and> w' \<noteq> [] \<and> last w' = k))
      \<and> (HighMood p \<noteq> 0 \<longrightarrow> HighMood p' = HighMood p)
      \<and> (LowMood p \<noteq> 0 \<longrightarrow> LowMood p' = LowMood p)
      \<and> (AverageMood p \<noteq> 0 \<longrightarrow> AverageMood p' = AverageMood p)"
proof -
  from assms have run: "range_prompts (prompts p) order p reader w = (p', r', w', err)"
    by (simp add: PromptForMetadata_def)
  from range_prompts_io [OF run] obtain hs n where
    io: "history r' = history reader @ hs"
      "map snd hs = replicate n None @ (case err of None \<Rightarrow> [] | Some e \<Rightarrow> [Some e])"
      "\<forall>e. err = Some e \<longrightarrow> e = ends reader \<and> pending r' = []"
    by blast
  have abort: "\<exists>answered k rest r1 w1. order = answered @ k # rest
      \<and> PromptForMetadata answered p reader w = (p', r1, w1, None) \<and> w' \<noteq> [] \<and> last w' = k"
    if "err = Some e" for e
  proof -
    from range_prompts_abort [OF run [unfolded that]] obtain answered k s rest r1 w1 where
      ab: "order = answered @ k # rest"
        "range_prompts (prompts p) answered p reader w = (p', r1, w1, None)"
        "ask k s p' r1 w1 = (p', r', w', Some e)"
      by blast
    from ask_cases [OF ab(3)] have "w' \<noteq> []" "last w' = k" by auto
    with ab(1,2) show ?thesis by (auto simp: PromptForMetadata_def)
  qed
  from io abort range_prompts_keeps_nonzero [OF run] show ?thesis
    by (intro exI [of _ hs] exI [of _ n]) simp
qed

theorem read_failure_aborts_witness:
  "PromptForMetadata [highPrompt, lowPrompt, avgPrompt]
      \<lparr>Seconds = 0, LowMood = 0, HighMood = 0, AverageMood = 0, Body = [], Path = ''p'',
       ModTime = zeroTime\<rparr>
      \<lparr>pending = [CHR ''3'', CHR 0x0A, CHR ''4''], ends = EOF, history = []\<rparr> []
    = (\<lparr>Seconds = 0, LowMood = 0, HighMood = 3, AverageMood = 0, Body = [], Path = ''p'',
        ModTime = zeroTime\<rparr>,
       \<lparr>pending = [], ends = EOF,
        history = [([CHR ''3'', CHR 0x0A], None), ([CHR ''4''], Some EOF)]\<rparr>,
       [highPrompt, lowPrompt], Some EOF)
   \<and> (\<exists>answered k rest r1 w1. [highPrompt, lowPrompt, avgPrompt] = answered @ k # rest
         \<and> PromptForMetadata answered
              \<lparr>Seconds = 0, LowMood = 0, HighMood = 0, AverageMood = 0, Body = [], Path = ''p'',
               ModTime = zeroTime\<rparr>
              \<lparr>pending = [CHR ''3'', CHR 0x0A, CHR ''4''], ends = EOF, history = []\<rparr> []
            = (\<lparr>Seconds = 0, LowMood = 0, HighMood = 3, AverageMood = 0, Body = [],
                Path = ''p'', ModTime = zeroTime\<rparr>, r1, w1, None)
         \<and> k = lowPrompt)"
proof -
  let ?p = "\<lparr>Seconds = 0, LowMood = 0, HighMood = 0, AverageMood = 0, Body = [], Path = ''p'',
       ModTime = zeroTime\<rparr>"
  let ?r = "\<lparr>pending = [CHR ''3'', CHR 0x0A, CHR ''4''], ends = EOF, history = []\<rparr>"
  have run: "PromptForMetadata [highPrompt, lowPrompt, avgPrompt] ?p ?r []
    = (\<lparr>Seconds = 0, LowMood = 0, HighMood = 3, AverageMood = 0, Body = [], Path = ''p'',
        ModTime = zeroTime\<rparr>,
       \<lparr>pending = [], ends = EOF,
        history = [([CHR ''3'', CHR 0x0A], None), ([CHR ''4''], Some EOF)]\<rparr>,
       [highPrompt, lowPrompt], Some EOF)"
    by (simp add: prompter_eval)
  from read_failure_aborts [OF run] run show ?thesis by auto
qed

text \<open>
  C7. With exactly one mood field unset and the input \<open>x\<close>, newline, \<open>5\<close>, newline,
  the Prompter writes the prompt, the rejection line once, the prompt again, and
  sets that field to 5.
\<close>

theorem input_correction:
  assumes "range_order (prompts p) order"
    and "pending reader = [CHR ''x'', CHR 0x0A, CHR ''5'', CHR 0x0A]"
    and "(HighMood p = 0 \<and> LowMood p \<noteq> 0 \<and> AverageMood p \<noteq> 0)
       \<or> (HighMood p \<noteq> 0 \<and> LowMood p = 0 \<and> AverageMood p \<noteq> 0)
       \<or> (HighMood p \<noteq> 0 \<and> LowMood p \<noteq> 0 \<and> AverageMood p = 0)"
  shows "\<exists>k ws p'. order = [k] \<and> ws = [k, unrecognized, k]
    \<and> count_list ws unrecognized = 1
    \<and> PromptForMetadata order p reader w =
        (p', reader\<lparr>pending := [], history := history reader
               @ [([CHR ''x'', CHR 0x0A], None), ([CHR ''5'', CHR 0x0A], None)]\<rparr>,
         w @ ws, None)
    \<and> (HighMood p = 0 \<longrightarrow> k = highPrompt \<and> p' = p\<lparr>HighMood := 5\<rparr>)
    \<and> (LowMood p = 0 \<longrightarrow> k = lowPrompt \<and> p' = p\<lparr>LowMood := 5\<rparr>)
    \<and> (AverageMood p = 0 \<longrightarrow> k = avgPrompt \<and> p' = p\<lparr>AverageMood := 5\<rparr>)"
proof -
  have single: "ks = [k]" if "distinct ks" and "set ks = {k}" for ks :: "string list" and k
  proof (cases ks)
    case Nil
    with that show ?thesis by simp
  next
    case (Cons x xs)
    with that have "x = k" "set xs \<subseteq> {k}" "k \<notin> set xs" by auto
    then have "xs = []" by (cases xs) auto
    with Cons \<open>x = k\<close> show ?thesis by simp
  qed
  from assms(1) have ro: "distinct order" "set order = dom (prompts p)"
    by (simp_all add: range_order_def)
  from assms(3) consider
      (high) "HighMood p = 0" "LowMood p \<noteq> 0" "AverageMood p \<noteq> 0"
    | (low) "HighMood p \<noteq> 0" "LowMood p = 0" "AverageMood p \<noteq> 0"
    | (avg) "HighMood p \<noteq> 0" "LowMood p \<noteq> 0" "AverageMood p = 0"
    by blast
  then show ?thesis
  proof cases
    case high
    then have "dom (prompts p) = {highPrompt}" by (simp add: prompts_def)
    with ro have o: "order = [highPrompt]" by (simp add: single)
    show ?thesis
      unfolding o using high assms(2)
      by (intro exI [of _ highPrompt] exI [of _ "[highPrompt, unrecognized, highPrompt]"]
            exI [of _ "p\<lparr>HighMood := 5\<rparr>"])
         (simp add: prompter_eval)
  next
    case low
    then have "dom (prompts p) = {lowPrompt}" by (simp add: prompts_def)
    with ro have o: "order = [lowPrompt]" by (simp add: single)
    show ?thesis
      unfolding o using low assms(2)
      by (intro exI [of _ lowPrompt] exI [of _ "[lowPrompt, unrecognized, lowPrompt]"]
            exI [of _ "p\<lparr>LowMood := 5\<rparr>"])
         (simp add: prompter_eval)
  next
    case avg
    then have "dom (prompts p) = {avgPrompt}" by (simp add: prompts_def)
    with ro have o: "order = [avgPrompt]" by (simp add: single)
    show ?thesis
      unfolding o using avg assms(2)
      by (intro exI [of _ avgPrompt] exI [of _ "[avgPrompt, unrecognized, avgPrompt]"]
            exI [of _ "p\<lparr>AverageMood := 5\<rparr>"])
         (simp add: prompter_eval)
  qed
qed

theorem input_correction_witness:
  "PromptForMetadata [lowPrompt]
      \<lparr>Seconds = 0, LowMood = 0, HighMood = 4, AverageMood = 3, Body = [], Path = ''p'',
       ModTime = zeroTime\<rparr>
      \<lparr>pending = [CHR ''x'', CHR 0x0A, CHR ''5'', CHR 0x0A], ends = EOF, history = []\<rparr> []
    = (\<lparr>Seconds = 0, LowMood = 5, HighMood = 4, AverageMood = 3, Body = [], Path = ''p'',
        ModTime = zeroTime\<rparr>,
       \<lparr>pending = [], ends = EOF,
        history = [([CHR ''x'', CHR 0x0A], None), ([CHR ''5'', CHR 0x0A], None)]\<rparr>,
       [lowPrompt, unrecognized, lowPrompt], None)"
proof -
  let ?p = "\<lparr>Seconds = 0, LowMood = 0, HighMood = 4, AverageMood = 3, Body = [], Path = ''p'',
       ModTime = zeroTime\<rparr>"
  let ?r = "\<lparr>pending = [CHR ''x'', CHR 0x0A, CHR ''5'', CHR 0x0A], ends = EOF, history = []\<rparr>"
  have ro: "range_order (prompts ?p) [lowPrompt]"
    by (simp add: range_order_def prompts_def)
  from input_correction [OF ro, of ?r "[]"] show ?thesis by simp
qed

end
